theory Spec2Isabelle
  imports Main
begin

section \<open>Data model\<close>

text \<open>
  The resolver of \<^verbatim>\<open>atc/db/algorithm/input_candidates.go\<close>. Job, build and version
  identifiers are Go \<^verbatim>\<open>int\<close>s. A \<^verbatim>\<open>JobSet\<close> is a Go map used as a set; the only thing
  the resolver does with it is range over it, so it is represented by the list of its
  members in the order the range loop visits them. A \<^verbatim>\<open>BuildSet\<close> is only ever
  united, intersected and tested for emptiness, so it is a HOL set.
\<close>

type_synonym JobSet = "int list"
type_synonym BuildSet = "int set"
type_synonym ResolvedInputs = "string \<rightharpoonup> int"

text \<open>
  Modelled from the spec: the type \<^verbatim>\<open>VersionCandidates\<close> and its methods
  \<^verbatim>\<open>Len\<close>, \<^verbatim>\<open>VersionIDs\<close>, \<^verbatim>\<open>ForVersion\<close>, \<^verbatim>\<open>BuildIDs\<close>,
  \<^verbatim>\<open>PruneVersionsOfOtherBuildIDs\<close> are used by the resolver but declared elsewhere.
  The spec describes the type as a mapping from version ID to, for each job ID, the build
  IDs of that job that used the version, enumerated in the caller's order of preference.
  It is represented by the list of its versions in enumeration order, each carrying its
  (job ID, build ID) records; version IDs are the keys, so a well-formed value lists
  every version ID once.
\<close>

record Version =
  vid :: int
  usedBy :: "(int \<times> int) list"

type_synonym VersionCandidates = "Version list"

definition versionBuildIDs :: "Version \<Rightarrow> int \<Rightarrow> BuildSet" where
  "versionBuildIDs v jobID = set (map snd (filter (\<lambda>p. fst p = jobID) (usedBy v)))"

text \<open>Modelled from the spec: \<^verbatim>\<open>Len()\<close> is the count of live versions.\<close>

definition vcLen :: "VersionCandidates \<Rightarrow> nat" where
  "vcLen vs = length vs"

text \<open>
  Modelled from the spec: \<^verbatim>\<open>VersionsIter\<close>, the single-pass sequence produced by
  \<^verbatim>\<open>VersionIDs()\<close>. The iterator is the list of the IDs not yet produced;
  \<^verbatim>\<open>Next\<close> hands out the first one together with the advanced iterator and
  \<^verbatim>\<open>Peek\<close> looks at it without advancing.
\<close>

type_synonym VersionsIter = "int list"

definition vcVersionIDs :: "VersionCandidates \<Rightarrow> VersionsIter" where
  "vcVersionIDs vs = map vid vs"

fun Next :: "VersionsIter \<Rightarrow> (int \<times> VersionsIter) option" where
  "Next [] = None"
| "Next (v # rest) = Some (v, rest)"

fun Peek :: "VersionsIter \<Rightarrow> int option" where
  "Peek [] = None"
| "Peek (v # rest) = Some v"

text \<open>
  Modelled from the spec: \<^verbatim>\<open>ForVersion(id)\<close> is the subset containing only
  \<^verbatim>\<open>id\<close>, empty if absent: the entry stored under that key.
\<close>

definition vcForVersion :: "VersionCandidates \<Rightarrow> int \<Rightarrow> VersionCandidates" where
  "vcForVersion vs version =
     (case find (\<lambda>v. vid v = version) vs of None \<Rightarrow> [] | Some v \<Rightarrow> [v])"

text \<open>
  Modelled from the spec: \<^verbatim>\<open>BuildIDs(jobID)\<close> is the union, over all live
  versions, of the build IDs recorded against the job.
\<close>

definition vcBuildIDs :: "VersionCandidates \<Rightarrow> int \<Rightarrow> BuildSet" where
  "vcBuildIDs vs jobID = (\<Union>v \<in> set vs. versionBuildIDs v jobID)"

text \<open>
  Modelled from the spec: \<^verbatim>\<open>PruneVersionsOfOtherBuildIDs(jobID, keep)\<close> keeps a
  version iff it has no recorded build for the job, or a recorded build of it for the job
  is a member of \<^verbatim>\<open>keep\<close>.
\<close>

definition vcPruneVersionsOfOtherBuildIDs ::
    "VersionCandidates \<Rightarrow> int \<Rightarrow> BuildSet \<Rightarrow> VersionCandidates" where
  "vcPruneVersionsOfOtherBuildIDs vs jobID keep =
     filter (\<lambda>v. versionBuildIDs v jobID = {} \<or> versionBuildIDs v jobID \<inter> keep \<noteq> {}) vs"

text \<open>
  Modelled from the spec: \<^verbatim>\<open>ExistingBuildResolver\<close>, the per-input oracle over the
  build history. The resolver only reads it.
\<close>

record ExistingBuildResolver =
  ExistsForVersion :: "int \<Rightarrow> bool"
  ExistsForResource :: bool

text \<open>
  \<^verbatim>\<open>type InputVersionCandidates struct\<close>. The embedded \<^verbatim>\<open>VersionCandidates\<close> is a
  field of its own; \<^verbatim>\<open>hasUsedResource *bool\<close> is \<open>None\<close> for the nil pointer.
\<close>

record InputVersionCandidates =
  Input :: string
  Passed :: "int set"
  UseEveryVersion :: bool
  PinnedVersionID :: int
  ExistingBuildResolver :: ExistingBuildResolver
  VersionCandidates :: VersionCandidates
  hasUsedResource :: "bool option"

type_synonym InputCandidates = "InputVersionCandidates list"

text \<open>The methods promoted from the embedded \<^verbatim>\<open>VersionCandidates\<close>.\<close>

definition Len :: "InputVersionCandidates \<Rightarrow> nat" where
  "Len c = vcLen (VersionCandidates c)"

definition VersionIDs :: "InputVersionCandidates \<Rightarrow> VersionsIter" where
  "VersionIDs c = vcVersionIDs (VersionCandidates c)"

definition ForVersion :: "InputVersionCandidates \<Rightarrow> int \<Rightarrow> VersionCandidates" where
  "ForVersion c version = vcForVersion (VersionCandidates c) version"

definition BuildIDs :: "InputVersionCandidates \<Rightarrow> int \<Rightarrow> BuildSet" where
  "BuildIDs c jobID = vcBuildIDs (VersionCandidates c) jobID"

definition PruneVersionsOfOtherBuildIDs ::
    "InputVersionCandidates \<Rightarrow> int \<Rightarrow> BuildSet \<Rightarrow> VersionCandidates" where
  "PruneVersionsOfOtherBuildIDs c jobID keep =
     vcPruneVersionsOfOtherBuildIDs (VersionCandidates c) jobID keep"

section \<open>HasUsedResource and IsNext\<close>

text \<open>
  \<^verbatim>\<open>HasUsedResource\<close> has a value receiver: Go runs the body on a copy of the
  struct. \<open>HasUsedResource_body\<close> is the body, returning the result and the receiver
  copy as the body leaves it; \<open>HasUsedResource\<close> is the value of the call expression,
  the copy being dropped on return.
\<close>

definition HasUsedResource_body ::
    "InputVersionCandidates \<Rightarrow> bool \<times> InputVersionCandidates" where
  "HasUsedResource_body inputVersionCandidates =
     (case hasUsedResource inputVersionCandidates of
        None \<Rightarrow>
          (let hasUsed = (UseEveryVersion inputVersionCandidates \<and>
                 ExistsForResource (ExistingBuildResolver inputVersionCandidates))
           in (hasUsed, inputVersionCandidates\<lparr>hasUsedResource := Some hasUsed\<rparr>))
      | Some cached \<Rightarrow> (cached, inputVersionCandidates))"

definition HasUsedResource :: "InputVersionCandidates \<Rightarrow> bool" where
  "HasUsedResource inputVersionCandidates = fst (HasUsedResource_body inputVersionCandidates)"

text \<open>
  \<^verbatim>\<open>IsNext\<close>: the iterator argument is the iterator after \<^verbatim>\<open>Next\<close> has produced
  \<^verbatim>\<open>version\<close>; \<^verbatim>\<open>Peek\<close> does not advance it.
\<close>

definition IsNext :: "InputVersionCandidates \<Rightarrow> int \<Rightarrow> VersionsIter \<Rightarrow> bool" where
  "IsNext inputVersionCandidates version versionIDs =
     (if \<not> HasUsedResource inputVersionCandidates then True
      else if ExistsForVersion (ExistingBuildResolver inputVersionCandidates) version then True
      else (case Peek versionIDs of
              None \<Rightarrow> True
            | Some older \<Rightarrow>
                if ExistsForVersion (ExistingBuildResolver inputVersionCandidates) older then True
                else False))"

section \<open>Pin, Unpin and pruning\<close>

text \<open>
  \<^verbatim>\<open>Pin\<close> and \<^verbatim>\<open>Unpin\<close> index the slice; an index out of range panics in Go, which
  is the result \<open>None\<close> here.
\<close>

definition Pin :: "InputCandidates \<Rightarrow> nat \<Rightarrow> int \<Rightarrow> InputCandidates option" where
  "Pin candidates input version =
     (if input < length candidates then
        (let limitedToVersion = ForVersion (candidates ! input) version;
             inputCandidates = candidates ! input;
             inputCandidates = inputCandidates\<lparr>VersionCandidates := limitedToVersion\<rparr>
         in Some (candidates[input := inputCandidates]))
      else None)"

definition Unpin ::
    "InputCandidates \<Rightarrow> nat \<Rightarrow> InputVersionCandidates \<Rightarrow> InputCandidates option" where
  "Unpin candidates input inputCandidates =
     (if input < length candidates then Some (candidates[input := inputCandidates]) else None)"

text \<open>
  \<^verbatim>\<open>commonBuildIDs\<close>: the loop over the inputs carries \<^verbatim>\<open>firstTick\<close> and the set
  built so far. On the first tick the input's build IDs are added to the set, afterwards
  every member of the set that the input lacks is deleted.
\<close>

fun commonBuildIDs_loop ::
    "InputCandidates \<Rightarrow> int \<Rightarrow> bool \<Rightarrow> BuildSet \<Rightarrow> BuildSet" where
  "commonBuildIDs_loop [] jobID firstTick commonBuildIDs = commonBuildIDs"
| "commonBuildIDs_loop (s # rest) jobID firstTick commonBuildIDs =
     (let setBuildIDs = BuildIDs s jobID in
      if setBuildIDs = {} then commonBuildIDs_loop rest jobID firstTick commonBuildIDs
      else if firstTick then
        commonBuildIDs_loop rest jobID False (commonBuildIDs \<union> setBuildIDs)
      else
        commonBuildIDs_loop rest jobID False {b \<in> commonBuildIDs. b \<in> setBuildIDs})"

definition commonBuildIDs :: "InputCandidates \<Rightarrow> int \<Rightarrow> BuildSet" where
  "commonBuildIDs candidates jobID = commonBuildIDs_loop candidates jobID True {}"

text \<open>
  \<^verbatim>\<open>pruneToCommonBuilds\<close>: the copy of the slice is the value \<open>newCandidates\<close>; for
  each job the common build IDs are computed once, before the inner loop rewrites every
  element from its own old value, which is a \<open>map\<close>.
\<close>

fun pruneToCommonBuilds_loop :: "InputCandidates \<Rightarrow> JobSet \<Rightarrow> InputCandidates" where
  "pruneToCommonBuilds_loop newCandidates [] = newCandidates"
| "pruneToCommonBuilds_loop newCandidates (jobID # jobs) =
     (let common = commonBuildIDs newCandidates jobID in
      pruneToCommonBuilds_loop
        (map (\<lambda>versionCandidates.
                versionCandidates\<lparr>VersionCandidates :=
                  PruneVersionsOfOtherBuildIDs versionCandidates jobID common\<rparr>)
             newCandidates)
        jobs)"

definition pruneToCommonBuilds :: "InputCandidates \<Rightarrow> JobSet \<Rightarrow> InputCandidates" where
  "pruneToCommonBuilds candidates jobs = pruneToCommonBuilds_loop candidates jobs"

section \<open>Reduce\<close>

text \<open>
  The result of \<^verbatim>\<open>Reduce\<close> is the pair (mapping, ok), the mapping being \<open>None\<close> for
  Go's nil map, or a panic.
\<close>

datatype outcome = Panic | Return "ResolvedInputs option" bool

text \<open>The final loop of \<^verbatim>\<open>Reduce\<close>, filling \<^verbatim>\<open>resolved\<close>.\<close>

fun resolveLoop :: "InputCandidates \<Rightarrow> ResolvedInputs \<Rightarrow> outcome" where
  "resolveLoop [] resolved = Return (Some resolved) True"
| "resolveLoop (inputVersionCandidates # rest) resolved =
     (case Next (VersionIDs inputVersionCandidates) of
        None \<Rightarrow> Return None False
      | Some (v, vids) \<Rightarrow> resolveLoop rest (resolved(Input inputVersionCandidates \<mapsto> v)))"

text \<open>The termination measure: twice the number of live versions, over all inputs.\<close>

definition weight :: "InputCandidates \<Rightarrow> nat" where
  "weight cs = sum_list (map (\<lambda>c. 2 * Len c) cs)"

definition weightExcept :: "InputCandidates \<Rightarrow> nat \<Rightarrow> nat" where
  "weightExcept cs i = weight (take i cs) + weight (drop (Suc i) cs)"

text \<open>
  \<^verbatim>\<open>Reduce\<close> and its two loops. \<open>rangeLoop\<close> is the \<^verbatim>\<open>for i, ... := range\<close> loop from
  index \<open>i\<close> on, followed by the code after it; \<open>versionsLoop\<close> is the inner
  \<^verbatim>\<open>for\<close> loop at branch input \<open>i\<close>, whose every exit returns from \<^verbatim>\<open>Reduce\<close>.
  The counter \<^verbatim>\<open>iteration\<close> is written and never read, and is left out.
\<close>

function (sequential)
    Reduce :: "nat \<Rightarrow> JobSet \<Rightarrow> InputCandidates \<Rightarrow> outcome"
and rangeLoop :: "nat \<Rightarrow> JobSet \<Rightarrow> InputCandidates \<Rightarrow> nat \<Rightarrow> outcome"
and versionsLoop ::
      "nat \<Rightarrow> JobSet \<Rightarrow> InputCandidates \<Rightarrow> nat \<Rightarrow> InputVersionCandidates \<Rightarrow> VersionsIter \<Rightarrow> outcome"
where
  "Reduce depth jobs candidates =
     rangeLoop depth jobs (pruneToCommonBuilds candidates jobs) 0"
| "rangeLoop depth jobs newInputCandidates i =
     (if i < length newInputCandidates then
        (if Len (newInputCandidates ! i) = 1 then
           rangeLoop depth jobs newInputCandidates (i + 1)
         else if PinnedVersionID (newInputCandidates ! i) \<noteq> 0 then
           (case Pin newInputCandidates i (PinnedVersionID (newInputCandidates ! i)) of
              None \<Rightarrow> Panic
            | Some pinned \<Rightarrow> rangeLoop depth jobs pinned (i + 1))
         else
           versionsLoop depth jobs newInputCandidates i (newInputCandidates ! i)
             (VersionIDs (newInputCandidates ! i)))
      else resolveLoop newInputCandidates Map.empty)"
| "versionsLoop depth jobs newInputCandidates i inputVersionCandidates versionIDs =
     (case Next versionIDs of
        None \<Rightarrow> Return None False
      | Some (v, versionIDs') \<Rightarrow>
          (case Pin newInputCandidates i v of
             None \<Rightarrow> Panic
           | Some pinned \<Rightarrow>
               (case Reduce (depth + 1) jobs pinned of
                  Panic \<Rightarrow> Panic
                | Return mapping ok \<Rightarrow>
                    if ok \<and> IsNext inputVersionCandidates v versionIDs' then Return mapping True
                    else
                      (case Unpin pinned i inputVersionCandidates of
                         None \<Rightarrow> Panic
                       | Some restored \<Rightarrow>
                           versionsLoop depth jobs restored i inputVersionCandidates
                             versionIDs'))))"
  by pat_completeness auto


subsection \<open>Termination\<close>

lemma Len_vcPrune_le:
  "length (vcPruneVersionsOfOtherBuildIDs vs j keep) \<le> length vs"
  by (simp add: vcPruneVersionsOfOtherBuildIDs_def)

lemma length_vcForVersion_le1: "length (vcForVersion vs v) \<le> 1"
  by (simp add: vcForVersion_def split: option.split)

lemma length_vcForVersion_le: "length (vcForVersion vs v) \<le> length vs"
  by (cases vs) (simp_all add: vcForVersion_def split: option.split)

lemma weight_Nil [simp]: "weight [] = 0"
  by (simp add: weight_def)

lemma weight_Cons [simp]: "weight (c # cs) = 2 * Len c + weight cs"
  by (simp add: weight_def)

lemma weight_append [simp]: "weight (xs @ ys) = weight xs + weight ys"
  by (simp add: weight_def)

lemma weight_split:
  assumes "i < length cs"
  shows "weight cs = weightExcept cs i + 2 * Len (cs ! i)"
proof -
  have "cs = take i cs @ cs ! i # drop (Suc i) cs"
    using assms by (rule id_take_nth_drop)
  then have "weight cs = weight (take i cs @ cs ! i # drop (Suc i) cs)"
    by simp
  then show ?thesis
    by (simp add: weightExcept_def)
qed

lemma weightExcept_update [simp]: "weightExcept (cs[i := c]) i = weightExcept cs i"
  by (simp add: weightExcept_def)

lemma weight_map_le:
  assumes "\<And>c. c \<in> set cs \<Longrightarrow> Len (f c) \<le> Len c"
  shows "weight (map f cs) \<le> weight cs"
  using assms by (induction cs) (simp_all add: add_le_mono)

lemma length_pruneToCommonBuilds_loop [simp]:
  "length (pruneToCommonBuilds_loop cs jobs) = length cs"
  by (induction jobs arbitrary: cs) (simp_all add: Let_def)

lemma length_pruneToCommonBuilds [simp]:
  "length (pruneToCommonBuilds cs jobs) = length cs"
  by (simp add: pruneToCommonBuilds_def)

lemma weight_pruneToCommonBuilds_loop:
  "weight (pruneToCommonBuilds_loop cs jobs) \<le> weight cs"
proof (induction jobs arbitrary: cs)
  case Nil
  show ?case by simp
next
  case (Cons j jobs)
  let ?f = "\<lambda>c. c\<lparr>VersionCandidates :=
                PruneVersionsOfOtherBuildIDs c j (commonBuildIDs cs j)\<rparr>"
  have "weight (map ?f cs) \<le> weight cs"
    by (rule weight_map_le)
       (simp add: Len_def vcLen_def PruneVersionsOfOtherBuildIDs_def Len_vcPrune_le)
  moreover have "weight (pruneToCommonBuilds_loop (map ?f cs) jobs) \<le> weight (map ?f cs)"
    by (rule Cons.IH)
  ultimately show ?case
    by (simp add: Let_def)
qed

lemma weight_pruneToCommonBuilds: "weight (pruneToCommonBuilds cs jobs) \<le> weight cs"
  by (simp add: pruneToCommonBuilds_def weight_pruneToCommonBuilds_loop)

lemma Pin_Some:
  "i < length cs \<Longrightarrow>
   Pin cs i v = Some (cs[i := (cs ! i)\<lparr>VersionCandidates := ForVersion (cs ! i) v\<rparr>])"
  by (simp add: Pin_def)

lemma Pin_SomeD:
  assumes "Pin cs i v = Some cs'"
  shows "i < length cs"
    and "cs' = cs[i := (cs ! i)\<lparr>VersionCandidates := ForVersion (cs ! i) v\<rparr>]"
  using assms by (auto simp: Pin_def split: if_splits)

lemma Pin_length:
  "Pin cs i v = Some cs' \<Longrightarrow> length cs' = length cs"
  by (auto simp: Pin_def split: if_splits)

lemma Unpin_SomeD:
  assumes "Unpin cs i c = Some cs'"
  shows "i < length cs" and "cs' = cs[i := c]"
  using assms by (auto simp: Unpin_def split: if_splits)

lemma Pin_weight_le:
  assumes "Pin cs i v = Some cs'"
  shows "weight cs' \<le> weightExcept cs i + 2"
    and "weight cs' \<le> weight cs"
    and "weightExcept cs' i = weightExcept cs i"
proof -
  have i: "i < length cs"
    and cs': "cs' = cs[i := (cs ! i)\<lparr>VersionCandidates := ForVersion (cs ! i) v\<rparr>]"
    using Pin_SomeD [OF assms] by simp_all
  have "i < length cs'"
    using i cs' by simp
  then have w: "weight cs' = weightExcept cs' i + 2 * Len (cs' ! i)"
    by (rule weight_split)
  show e: "weightExcept cs' i = weightExcept cs i"
    by (simp add: cs')
  have l1: "Len (cs' ! i) \<le> 1"
    using i length_vcForVersion_le1 [of "VersionCandidates (cs ! i)" v]
    by (simp add: cs' Len_def vcLen_def ForVersion_def)
  have l2: "Len (cs' ! i) \<le> Len (cs ! i)"
    using i by (simp add: cs' Len_def vcLen_def ForVersion_def length_vcForVersion_le)
  show "weight cs' \<le> weightExcept cs i + 2"
    using w e l1 by simp
  show "weight cs' \<le> weight cs"
    using w e l2 weight_split [OF i] by simp
qed

lemma Next_SomeD:
  assumes "Next it = Some (v, it')"
  shows "it = v # it'"
  using assms by (cases it) simp_all

termination Reduce
proof (relation "measures
    [\<lambda>x. case x of
        Inl (depth, jobs, cs) \<Rightarrow> weight cs
      | Inr (Inl (depth, jobs, cs, i)) \<Rightarrow> weight cs
      | Inr (Inr (depth, jobs, cs, i, c, it)) \<Rightarrow>
          weightExcept cs i + (if it = [] then 0 else 3),
     \<lambda>x. case x of
        Inl (depth, jobs, cs) \<Rightarrow> 2
      | Inr (Inl (depth, jobs, cs, i)) \<Rightarrow> 1
      | Inr (Inr (depth, jobs, cs, i, c, it)) \<Rightarrow> 0,
     \<lambda>x. case x of
        Inl (depth, jobs, cs) \<Rightarrow> 0
      | Inr (Inl (depth, jobs, cs, i)) \<Rightarrow> length cs - i
      | Inr (Inr (depth, jobs, cs, i, c, it)) \<Rightarrow> length it]", goal_cases)
  case 1
  show ?case by simp
next
  case (2 depth jobs candidates)
  have "weight (pruneToCommonBuilds candidates jobs) \<le> weight candidates"
    by (rule weight_pruneToCommonBuilds)
  then show ?case by auto
next
  case (3 depth jobs cs i)
  then show ?case by auto
next
  case (4 depth jobs cs i pinned)
  have "weight pinned \<le> weight cs"
    using 4 Pin_weight_le(2) by blast
  moreover have "length pinned = length cs"
    using 4 Pin_length by blast
  ultimately show ?case using 4 by auto
next
  case (5 depth jobs cs i)
  have "weight cs = weightExcept cs i + 2 * Len (cs ! i)"
    using 5 by (simp add: weight_split)
  moreover have "VersionIDs (cs ! i) = [] \<longleftrightarrow> Len (cs ! i) = 0"
    by (simp add: VersionIDs_def vcVersionIDs_def Len_def vcLen_def)
  ultimately show ?case using 5 by auto
next
  case (6 depth jobs cs i c it x v it' pinned)
  have "it \<noteq> []"
    using 6 by auto
  moreover have "weight pinned \<le> weightExcept cs i + 2"
    using 6 Pin_weight_le(1) by blast
  ultimately show ?case by auto
next
  case (7 depth jobs cs i c it x v it' pinned mapping ok restored)
  have it: "it = v # it'"
    using 7 by (auto dest: Next_SomeD)
  have "weightExcept pinned i = weightExcept cs i"
    using 7 Pin_weight_le(3) by blast
  moreover have "restored = pinned[i := c]"
    using 7 Unpin_SomeD(2) by blast
  ultimately show ?case using it by auto
qed

section \<open>Unfolding the loops\<close>

text \<open>
  The defining equations of the three functions are used one step at a time. \<open>pinned\<close>
  is the slice after a \<^verbatim>\<open>Pin\<close> at an index in range.
\<close>

declare Reduce.simps [simp del] rangeLoop.simps [simp del] versionsLoop.simps [simp del]

definition pinned :: "InputCandidates \<Rightarrow> nat \<Rightarrow> int \<Rightarrow> InputCandidates" where
  "pinned cs i v = cs[i := (cs ! i)\<lparr>VersionCandidates := ForVersion (cs ! i) v\<rparr>]"

lemma Pin_pinned: "i < length cs \<Longrightarrow> Pin cs i v = Some (pinned cs i v)"
  by (simp add: Pin_def pinned_def)

lemma Pin_eq_Some_iff: "Pin cs i v = Some cs' \<longleftrightarrow> i < length cs \<and> cs' = pinned cs i v"
  by (auto simp: Pin_def pinned_def)

lemma length_pinned [simp]: "length (pinned cs i v) = length cs"
  by (simp add: pinned_def)

lemma Unpin_pinned: "i < length cs \<Longrightarrow> Unpin (pinned cs i v) i (cs ! i) = Some cs"
  by (simp add: Unpin_def pinned_def)

lemma rangeLoop_done:
  "\<not> i < length new \<Longrightarrow> rangeLoop depth jobs new i = resolveLoop new Map.empty"
  by (simp add: rangeLoop.simps)

lemma rangeLoop_skip:
  "i < length new \<Longrightarrow> Len (new ! i) = 1 \<Longrightarrow>
   rangeLoop depth jobs new i = rangeLoop depth jobs new (Suc i)"
  by (subst rangeLoop.simps) simp

lemma rangeLoop_pin:
  "i < length new \<Longrightarrow> Len (new ! i) \<noteq> 1 \<Longrightarrow> PinnedVersionID (new ! i) \<noteq> 0 \<Longrightarrow>
   rangeLoop depth jobs new i =
     rangeLoop depth jobs (pinned new i (PinnedVersionID (new ! i))) (Suc i)"
  by (subst rangeLoop.simps) (simp add: Pin_pinned)

lemma rangeLoop_branch:
  "i < length new \<Longrightarrow> Len (new ! i) \<noteq> 1 \<Longrightarrow> PinnedVersionID (new ! i) = 0 \<Longrightarrow>
   rangeLoop depth jobs new i =
     versionsLoop depth jobs new i (new ! i) (VersionIDs (new ! i))"
  by (subst rangeLoop.simps) simp

lemma versionsLoop_Nil:
  "versionsLoop depth jobs new i c [] = Return None False"
  by (simp add: versionsLoop.simps)

lemma versionsLoop_Cons:
  "i < length new \<Longrightarrow>
   versionsLoop depth jobs new i (new ! i) (v # it) =
     (case Reduce (Suc depth) jobs (pinned new i v) of
        Panic \<Rightarrow> Panic
      | Return mapping ok \<Rightarrow>
          if ok \<and> IsNext (new ! i) v it then Return mapping True
          else versionsLoop depth jobs new i (new ! i) it)"
  by (subst versionsLoop.simps) (simp add: Pin_pinned Unpin_pinned split: outcome.split)


lemma Reduce_loops_induct
    [case_names reduce past_end skip pin branch out_of_range exhausted attempt]:
  assumes R: "\<And>depth jobs cs. Q depth jobs (pruneToCommonBuilds cs jobs) 0 \<Longrightarrow> P depth jobs cs"
    and D: "\<And>depth jobs new i. \<not> i < length new \<Longrightarrow> Q depth jobs new i"
    and S: "\<And>depth jobs new i. i < length new \<Longrightarrow> Len (new ! i) = 1 \<Longrightarrow>
              Q depth jobs new (Suc i) \<Longrightarrow> Q depth jobs new i"
    and N: "\<And>depth jobs new i. i < length new \<Longrightarrow> Len (new ! i) \<noteq> 1 \<Longrightarrow>
              PinnedVersionID (new ! i) \<noteq> 0 \<Longrightarrow>
              Q depth jobs (pinned new i (PinnedVersionID (new ! i))) (Suc i) \<Longrightarrow>
              Q depth jobs new i"
    and B: "\<And>depth jobs new i. i < length new \<Longrightarrow> Len (new ! i) \<noteq> 1 \<Longrightarrow>
              PinnedVersionID (new ! i) = 0 \<Longrightarrow>
              V depth jobs new i (VersionIDs (new ! i)) \<Longrightarrow> Q depth jobs new i"
    and O: "\<And>depth jobs new i it. \<not> i < length new \<Longrightarrow> V depth jobs new i it"
    and E: "\<And>depth jobs new i. i < length new \<Longrightarrow> V depth jobs new i []"
    and C: "\<And>depth jobs new i v it. i < length new \<Longrightarrow>
              P (Suc depth) jobs (pinned new i v) \<Longrightarrow>
              (\<And>m ok. Reduce (Suc depth) jobs (pinned new i v) = Return m ok \<Longrightarrow>
                 \<not> (ok \<and> IsNext (new ! i) v it) \<Longrightarrow> V depth jobs new i it) \<Longrightarrow>
              V depth jobs new i (v # it)"
  shows "P depth jobs cs"
    and "Q depth jobs new i"
    and "V depth jobs new i it"
proof -
  have "P depth jobs cs" and "Q depth jobs new i"
    and "c = new ! i \<longrightarrow> V depth jobs new i it" for c
  proof (induction depth jobs cs and depth jobs new i and depth jobs new i c it
         rule: Reduce_rangeLoop_versionsLoop.induct)
    case (1 depth jobs candidates)
    then show ?case by (rule R)
  next
    case (2 depth jobs new i)
    show ?case
    proof (cases "i < length new")
      case False
      then show ?thesis by (rule D)
    next
      case i: True
      show ?thesis
      proof (cases "Len (new ! i) = 1")
        case True
        with i 2(1) show ?thesis by (auto intro: S)
      next
        case l: False
        show ?thesis
        proof (cases "PinnedVersionID (new ! i) = 0")
          case True
          with i l 2(3) show ?thesis by (auto intro: B)
        next
          case False
          with i l 2(2) [OF i l False Pin_pinned [OF i]] show ?thesis by (auto intro: N)
        qed
      qed
    qed
  next
    case (3 depth jobs new i c it)
    show ?case
    proof (cases "i < length new")
      case False
      then show ?thesis by (simp add: O)
    next
      case i: True
      show ?thesis
      proof (intro impI)
        assume c: "c = new ! i"
        show "V depth jobs new i it"
        proof (cases it)
          case Nil
          with i show ?thesis by (simp add: E)
        next
          case (Cons v it')
          have nx: "Next it = Some (v, it')"
            by (simp add: Cons)
          have p: "P (Suc depth) jobs (pinned new i v)"
            using 3(1) [OF nx refl Pin_pinned [OF i]] by simp
          have "V depth jobs new i it'"
            if "Reduce (Suc depth) jobs (pinned new i v) = Return m ok"
              and "\<not> (ok \<and> IsNext (new ! i) v it')" for m ok
            using 3(2) [OF nx refl Pin_pinned [OF i], of m ok new] that i c
            by (simp add: Unpin_pinned)
          with i p show ?thesis
            unfolding Cons by (rule C)
        qed
      qed
    qed
  qed
  then show "P depth jobs cs" and "Q depth jobs new i" and "V depth jobs new i it"
    by simp_all
qed

subsection \<open>Names\<close>

lemma Input_prune_loop [simp]:
  "map Input (pruneToCommonBuilds_loop cs jobs) = map Input cs"
  by (induction jobs arbitrary: cs) (simp_all add: Let_def comp_def)

lemma Input_prune [simp]: "map Input (pruneToCommonBuilds cs jobs) = map Input cs"
  by (simp add: pruneToCommonBuilds_def)

lemma Input_pinned [simp]: "map Input (pinned cs i v) = map Input cs"
proof (cases "i < length cs")
  case True
  then show ?thesis
    by (simp add: pinned_def map_update list_update_same_conv)
next
  case False
  then have "length cs \<le> i"
    by simp
  then have "pinned cs i v = cs"
    unfolding pinned_def by (rule list_update_beyond)
  then show ?thesis by simp
qed


lemma names_eq: "map Input cs' = map Input cs \<Longrightarrow> Input ` set cs' = Input ` set cs"
proof -
  assume "map Input cs' = map Input cs"
  then have "set (map Input cs') = set (map Input cs)"
    by (rule arg_cong)
  then show ?thesis
    by (simp only: set_map)
qed

definition shaped :: "InputCandidates \<Rightarrow> outcome \<Rightarrow> bool" where
  "shaped cs out \<longleftrightarrow>
     out = Return None False \<or> (\<exists>r. out = Return (Some r) True \<and> dom r = Input ` set cs)"

lemma shaped_names: "map Input cs' = map Input cs \<Longrightarrow> shaped cs' out \<Longrightarrow> shaped cs out"
  using names_eq [of cs' cs] by (simp add: shaped_def)

lemma resolveLoop_shape:
  "resolveLoop cs r0 = Return None False \<or>
   (\<exists>r. resolveLoop cs r0 = Return (Some r) True \<and> dom r = dom r0 \<union> Input ` set cs)"
proof (induction cs arbitrary: r0)
  case Nil
  show ?case by simp
next
  case (Cons c cs)
  show ?case
  proof (cases "Next (VersionIDs c)")
    case None
    then show ?thesis by simp
  next
    case (Some p)
    obtain v vids where p: "p = (v, vids)" by (cases p)
    have eq: "resolveLoop (c # cs) r0 = resolveLoop cs (r0(Input c \<mapsto> v))"
      by (simp add: Some p)
    have d: "dom (r0(Input c \<mapsto> v)) \<union> Input ` set cs = dom r0 \<union> Input ` set (c # cs)"
      by auto
    have "resolveLoop cs (r0(Input c \<mapsto> v)) = Return None False \<or>
      (\<exists>r. resolveLoop cs (r0(Input c \<mapsto> v)) = Return (Some r) True \<and>
           dom r = dom (r0(Input c \<mapsto> v)) \<union> Input ` set cs)"
      by (rule Cons.IH)
    then show ?thesis
      unfolding eq d .
  qed
qed

lemma Reduce_shaped_loops:
  shows "shaped cs (Reduce depth jobs cs)"
    and "shaped new (rangeLoop depth jobs new i)"
    and "i < length new \<longrightarrow> shaped new (versionsLoop depth jobs new i (new ! i) it)"
proof (induction depth jobs cs and depth jobs new i and depth jobs new i it
       rule: Reduce_loops_induct)
  case (reduce depth jobs cs)
  then show ?case
    unfolding Reduce.simps by (rule shaped_names [OF Input_prune])
next
  case (past_end depth jobs new i)
  then show ?case
    using resolveLoop_shape [of new Map.empty] by (simp add: rangeLoop_done shaped_def)
next
  case (skip depth jobs new i)
  then show ?case by (simp add: rangeLoop_skip)
next
  case (pin depth jobs new i)
  from pin(4) have "shaped new (rangeLoop depth jobs (pinned new i (PinnedVersionID (new ! i))) (Suc i))"
    by (rule shaped_names [OF Input_pinned])
  with pin(1-3) show ?case
    by (simp add: rangeLoop_pin)
next
  case (branch depth jobs new i)
  then show ?case by (simp add: rangeLoop_branch)
next
  case (out_of_range depth jobs new i it)
  then show ?case by simp
next
  case (exhausted depth jobs new i)
  then show ?case by (simp add: versionsLoop_Nil shaped_def)
next
  case (attempt depth jobs new i v it)
  from attempt(2) have sh: "shaped new (Reduce (Suc depth) jobs (pinned new i v))"
    by (rule shaped_names [OF Input_pinned])
  show ?case
  proof (intro impI)
    assume i: "i < length new"
    let ?out = "Reduce (Suc depth) jobs (pinned new i v)"
    from sh consider "?out = Return None False"
      | r where "?out = Return (Some r) True" "dom r = Input ` set new"
      by (auto simp: shaped_def)
    then show "shaped new (versionsLoop depth jobs new i (new ! i) (v # it))"
    proof cases
      case 1
      with attempt(3) [of None False] i show ?thesis
        by (simp add: versionsLoop_Cons)
    next
      case 2
      show ?thesis
      proof (cases "IsNext (new ! i) v it")
        case True
        with 2 i show ?thesis
          by (simp add: versionsLoop_Cons shaped_def)
      next
        case False
        with attempt(3) [of "Some r" True] 2 i show ?thesis
          by (simp add: versionsLoop_Cons)
      qed
    qed
  qed
qed

section \<open>Candidate sets only shrink\<close>

definition narrowed :: "InputVersionCandidates \<Rightarrow> InputVersionCandidates \<Rightarrow> bool" where
  "narrowed c' c \<longleftrightarrow>
     c' = c\<lparr>VersionCandidates := VersionCandidates c'\<rparr> \<and>
     set (VersionCandidates c') \<subseteq> set (VersionCandidates c) \<and>
     length (VersionCandidates c') \<le> length (VersionCandidates c)"

definition narrows :: "InputCandidates \<Rightarrow> InputCandidates \<Rightarrow> bool" where
  "narrows cs' cs \<longleftrightarrow> list_all2 narrowed cs' cs"

lemma narrowed_refl [simp]: "narrowed c c"
  by (simp add: narrowed_def)

lemma narrowed_trans: "narrowed c'' c' \<Longrightarrow> narrowed c' c \<Longrightarrow> narrowed c'' c"
proof -
  assume a: "narrowed c'' c'" and b: "narrowed c' c"
  have "c'' = c'\<lparr>VersionCandidates := VersionCandidates c''\<rparr>"
    using a by (simp add: narrowed_def)
  also have "c' = c\<lparr>VersionCandidates := VersionCandidates c'\<rparr>"
    using b by (simp add: narrowed_def)
  finally have "c'' = c\<lparr>VersionCandidates := VersionCandidates c''\<rparr>"
    by simp
  moreover have "set (VersionCandidates c'') \<subseteq> set (VersionCandidates c)"
    using a b unfolding narrowed_def by blast
  moreover have "length (VersionCandidates c'') \<le> length (VersionCandidates c)"
    using a b unfolding narrowed_def by linarith
  ultimately show ?thesis
    unfolding narrowed_def by blast
qed

lemma narrows_refl [simp]: "narrows cs cs"
  by (simp add: narrows_def list_all2_refl)

lemma narrows_trans: "narrows cs'' cs' \<Longrightarrow> narrows cs' cs \<Longrightarrow> narrows cs'' cs"
  unfolding narrows_def
  by (erule (1) list_all2_trans [rotated 1]) (rule narrowed_trans)

lemma narrows_length: "narrows cs' cs \<Longrightarrow> length cs' = length cs"
  by (simp add: narrows_def list_all2_lengthD)

lemma narrows_nth: "narrows cs' cs \<Longrightarrow> i < length cs \<Longrightarrow> narrowed (cs' ! i) (cs ! i)"
  by (simp add: narrows_def list_all2_conv_all_nth)

lemma narrowed_update:
  "set vs \<subseteq> set (VersionCandidates c) \<Longrightarrow> length vs \<le> length (VersionCandidates c) \<Longrightarrow>
   narrowed (c\<lparr>VersionCandidates := vs\<rparr>) c"
  by (simp add: narrowed_def)

lemma find_SomeD: "find P xs = Some x \<Longrightarrow> x \<in> set xs \<and> P x"
  by (induction xs) (auto split: if_splits)

lemma set_vcForVersion: "set (vcForVersion vs v) \<subseteq> set vs"
proof (cases "find (\<lambda>x. vid x = v) vs")
  case None
  then show ?thesis by (simp add: vcForVersion_def)
next
  case (Some x)
  then have "x \<in> set vs"
    by (simp add: find_SomeD)
  with Some show ?thesis by (simp add: vcForVersion_def)
qed

lemma narrows_map:
  "(\<And>c. c \<in> set cs \<Longrightarrow> narrowed (f c) c) \<Longrightarrow> narrows (map f cs) cs"
  by (simp add: narrows_def list_all2_conv_all_nth)

lemma narrows_prune_loop: "narrows (pruneToCommonBuilds_loop cs jobs) cs"
proof (induction jobs arbitrary: cs)
  case Nil
  show ?case by simp
next
  case (Cons j jobs)
  let ?f = "\<lambda>c. c\<lparr>VersionCandidates :=
                PruneVersionsOfOtherBuildIDs c j (commonBuildIDs cs j)\<rparr>"
  have "narrows (map ?f cs) cs"
    by (rule narrows_map, rule narrowed_update)
       (simp_all add: PruneVersionsOfOtherBuildIDs_def vcPruneVersionsOfOtherBuildIDs_def)
  moreover have "narrows (pruneToCommonBuilds_loop (map ?f cs) jobs) (map ?f cs)"
    by (rule Cons.IH)
  ultimately show ?case
    by (simp add: Let_def narrows_trans)
qed

lemma narrows_prune: "narrows (pruneToCommonBuilds cs jobs) cs"
  by (simp add: pruneToCommonBuilds_def narrows_prune_loop)

lemma narrows_update:
  "i < length cs \<Longrightarrow> narrowed c (cs ! i) \<Longrightarrow> narrows (cs[i := c]) cs"
  by (auto simp: narrows_def list_all2_conv_all_nth nth_list_update)

lemma narrows_pinned: "narrows (pinned cs i v) cs"
proof (cases "i < length cs")
  case True
  have "narrowed ((cs ! i)\<lparr>VersionCandidates := ForVersion (cs ! i) v\<rparr>) (cs ! i)"
    by (rule narrowed_update)
       (simp_all add: ForVersion_def set_vcForVersion length_vcForVersion_le)
  with True show ?thesis
    unfolding pinned_def by (rule narrows_update)
next
  case False
  then have "length cs \<le> i" by simp
  then have "pinned cs i v = cs"
    unfolding pinned_def by (rule list_update_beyond)
  then show ?thesis by simp
qed

definition emptyInput :: "InputCandidates \<Rightarrow> bool" where
  "emptyInput cs \<longleftrightarrow> (\<exists>c \<in> set cs. Len c = 0)"

lemma emptyInput_narrows:
  assumes "emptyInput cs" and "narrows cs' cs"
  shows "emptyInput cs'"
proof -
  from assms(1) obtain i where i: "i < length cs" and e: "Len (cs ! i) = 0"
    by (auto simp: emptyInput_def in_set_conv_nth)
  have "narrowed (cs' ! i) (cs ! i)"
    using assms(2) i by (rule narrows_nth)
  with e have "Len (cs' ! i) = 0"
    by (simp add: narrowed_def Len_def vcLen_def)
  moreover have "i < length cs'"
    using i narrows_length [OF assms(2)] by simp
  ultimately show ?thesis
    unfolding emptyInput_def by (metis nth_mem)
qed

lemma resolveLoop_empty:
  "emptyInput cs \<Longrightarrow> resolveLoop cs r0 = Return None False"
proof (induction cs arbitrary: r0)
  case Nil
  then show ?case by (simp add: emptyInput_def)
next
  case (Cons c cs)
  show ?case
  proof (cases "VersionCandidates c")
    case Nil
    then show ?thesis
      by (simp add: VersionIDs_def vcVersionIDs_def)
  next
    case (Cons x xs)
    with Cons.prems have "emptyInput cs"
      by (simp add: emptyInput_def Len_def vcLen_def)
    then have "resolveLoop cs (r0(Input c \<mapsto> vid x)) = Return None False"
      by (rule Cons.IH)
    with Cons show ?thesis
      by (simp add: VersionIDs_def vcVersionIDs_def)
  qed
qed

lemma Reduce_empty_loops:
  shows "emptyInput cs \<longrightarrow> Reduce depth jobs cs = Return None False"
    and "emptyInput new \<longrightarrow> rangeLoop depth jobs new i = Return None False"
    and "i < length new \<longrightarrow> emptyInput new \<longrightarrow>
           versionsLoop depth jobs new i (new ! i) it = Return None False"
proof (induction depth jobs cs and depth jobs new i and depth jobs new i it
       rule: Reduce_loops_induct)
  case (reduce depth jobs cs)
  then show ?case
    using emptyInput_narrows [OF _ narrows_prune] by (simp add: Reduce.simps)
next
  case (past_end depth jobs new i)
  then show ?case by (simp add: rangeLoop_done resolveLoop_empty)
next
  case (skip depth jobs new i)
  then show ?case by (simp add: rangeLoop_skip)
next
  case (pin depth jobs new i)
  then show ?case
    using emptyInput_narrows [OF _ narrows_pinned] by (simp add: rangeLoop_pin)
next
  case (branch depth jobs new i)
  then show ?case by (simp add: rangeLoop_branch)
next
  case (out_of_range depth jobs new i it)
  then show ?case by simp
next
  case (exhausted depth jobs new i)
  then show ?case by (simp add: versionsLoop_Nil)
next
  case (attempt depth jobs new i v it)
  show ?case
  proof (intro impI)
    assume i: "i < length new" and e: "emptyInput new"
    have "emptyInput (pinned new i v)"
      using e narrows_pinned by (rule emptyInput_narrows)
    with attempt(2) have r: "Reduce (Suc depth) jobs (pinned new i v) = Return None False"
      by simp
    with attempt(3) [of None False] i e
    show "versionsLoop depth jobs new i (new ! i) (v # it) = Return None False"
      by (simp add: versionsLoop_Cons)
  qed
qed

lemma vcForVersion_absent:
  assumes "v \<notin> set (vcVersionIDs vs)"
  shows "vcForVersion vs v = []"
proof -
  have "find (\<lambda>x. vid x = v) vs = None"
    using assms by (auto simp: find_None_iff vcVersionIDs_def)
  then show ?thesis by (simp add: vcForVersion_def)
qed

lemma rangeLoop_pin_absent:
  assumes "i < length new" and "Len (new ! i) \<noteq> 1" and "PinnedVersionID (new ! i) \<noteq> 0"
    and "PinnedVersionID (new ! i) \<notin> set (VersionIDs (new ! i))"
  shows "rangeLoop depth jobs new i = Return None False"
proof -
  let ?p = "pinned new i (PinnedVersionID (new ! i))"
  have "VersionCandidates (?p ! i) = []"
    using assms(1,4) by (simp add: pinned_def ForVersion_def VersionIDs_def vcForVersion_absent)
  moreover have "?p ! i \<in> set ?p"
    using assms(1) by (simp add: nth_mem)
  ultimately have "emptyInput ?p"
    unfolding emptyInput_def by (metis Len_def vcLen_def list.size(3))
  then have "rangeLoop depth jobs ?p (Suc i) = Return None False"
    using Reduce_empty_loops(2) by simp
  with assms(1-3) show ?thesis
    by (simp add: rangeLoop_pin)
qed

lemma resolveLoop_success_iff:
  "(\<exists>r. resolveLoop cs r0 = Return (Some r) True) \<longleftrightarrow> (\<forall>c \<in> set cs. VersionIDs c \<noteq> [])"
proof (induction cs arbitrary: r0)
  case Nil
  show ?case by simp
next
  case (Cons c cs)
  show ?case
  proof (cases "VersionIDs c")
    case Nil
    then show ?thesis by simp
  next
    case (Cons v vids)
    then have "resolveLoop (c # cs) r0 = resolveLoop cs (r0(Input c \<mapsto> v))"
      by simp
    moreover have "(\<exists>r. resolveLoop cs (r0(Input c \<mapsto> v)) = Return (Some r) True) \<longleftrightarrow>
        (\<forall>c \<in> set cs. VersionIDs c \<noteq> [])"
      by (rule Cons.IH)
    ultimately show ?thesis
      using Cons by simp
  qed
qed

lemma resolveLoop_lookup:
  assumes "resolveLoop cs r0 = Return (Some r) True" and "distinct (map Input cs)"
  shows "(\<forall>i < length cs. r (Input (cs ! i)) = Some (hd (VersionIDs (cs ! i))) \<and>
            VersionIDs (cs ! i) \<noteq> []) \<and>
         (\<forall>n. n \<notin> Input ` set cs \<longrightarrow> r n = r0 n)"
  using assms
proof (induction cs arbitrary: r0)
  case Nil
  then show ?case by simp
next
  case (Cons c cs)
  show ?case
  proof (cases "VersionIDs c")
    case Nil
    with Cons.prems(1) show ?thesis by simp
  next
    case vs: (Cons v vids)
    have step: "resolveLoop cs (r0(Input c \<mapsto> v)) = Return (Some r) True"
      using Cons.prems(1) vs by simp
    have d: "distinct (map Input cs)" and notin: "Input c \<notin> Input ` set cs"
      using Cons.prems(2) by simp_all
    note ih = Cons.IH [OF step d]
    have outside: "\<And>n. n \<notin> Input ` set cs \<Longrightarrow> r n = (r0(Input c \<mapsto> v)) n"
      using ih by blast
    have here: "r (Input c) = Some v"
      using outside [OF notin] by simp
    show ?thesis
    proof (intro conjI allI impI)
      fix i assume i: "i < length (c # cs)"
      show "r (Input ((c # cs) ! i)) = Some (hd (VersionIDs ((c # cs) ! i)))"
        using i ih here vs by (cases i) simp_all
      show "VersionIDs ((c # cs) ! i) \<noteq> []"
        using i ih vs by (cases i) simp_all
    next
      fix n assume "n \<notin> Input ` set (c # cs)"
      then show "r n = r0 n"
        using outside [of n] by simp
    qed
  qed
qed


lemma narrowed_fields:
  assumes "narrowed c' c"
  shows "Input c' = Input c" and "PinnedVersionID c' = PinnedVersionID c"
    and "Passed c' = Passed c" and "UseEveryVersion c' = UseEveryVersion c"
    and "ExistingBuildResolver c' = ExistingBuildResolver c"
    and "hasUsedResource c' = hasUsedResource c"
proof -
  have e: "c' = c\<lparr>VersionCandidates := VersionCandidates c'\<rparr>"
    using assms by (simp add: narrowed_def)
  show "Input c' = Input c" by (subst e) simp
  show "PinnedVersionID c' = PinnedVersionID c" by (subst e) simp
  show "Passed c' = Passed c" by (subst e) simp
  show "UseEveryVersion c' = UseEveryVersion c" by (subst e) simp
  show "ExistingBuildResolver c' = ExistingBuildResolver c" by (subst e) simp
  show "hasUsedResource c' = hasUsedResource c" by (subst e) simp
qed

lemma narrowed_ids: "narrowed c' c \<Longrightarrow> set (VersionIDs c') \<subseteq> set (VersionIDs c)"
  by (auto simp: narrowed_def VersionIDs_def vcVersionIDs_def)

lemma narrowed_Len: "narrowed c' c \<Longrightarrow> Len c' \<le> Len c"
  by (simp add: narrowed_def Len_def vcLen_def)

lemma narrows_names: "narrows cs' cs \<Longrightarrow> map Input cs' = map Input cs"
  by (auto simp: narrows_def list_all2_conv_all_nth narrowed_fields(1) intro: nth_equalityI)

lemma pinned_nth_same: "i < length cs \<Longrightarrow>
    pinned cs i v ! i = (cs ! i)\<lparr>VersionCandidates := ForVersion (cs ! i) v\<rparr>"
  by (simp add: pinned_def)

lemma pinned_nth_other: "n \<noteq> i \<Longrightarrow> pinned cs i v ! n = cs ! n"
  by (simp add: pinned_def)

definition onlyVersion :: "InputVersionCandidates \<Rightarrow> int \<Rightarrow> bool" where
  "onlyVersion c v \<longleftrightarrow> set (VersionIDs c) \<subseteq> {v}"

lemma onlyVersion_narrowed: "narrowed c' c \<Longrightarrow> onlyVersion c v \<Longrightarrow> onlyVersion c' v"
  using narrowed_ids [of c' c] by (auto simp: onlyVersion_def)

lemma find_vid: "find (\<lambda>x. vid x = v) vs = Some x \<Longrightarrow> vid x = v"
  using find_SomeD [of "\<lambda>x. vid x = v" vs x] by simp

lemma vcForVersion_ids: "set (vcVersionIDs (vcForVersion vs v)) \<subseteq> {v}"
proof (cases "find (\<lambda>x. vid x = v) vs")
  case None
  then show ?thesis by (simp add: vcForVersion_def vcVersionIDs_def)
next
  case (Some x)
  then have "vid x = v" by (rule find_vid)
  with Some show ?thesis by (simp add: vcForVersion_def vcVersionIDs_def)
qed

lemma onlyVersion_pinned: "i < length cs \<Longrightarrow> onlyVersion (pinned cs i v ! i) v"
  using vcForVersion_ids [of "VersionCandidates (cs ! i)" v]
  by (simp add: pinned_nth_same onlyVersion_def VersionIDs_def ForVersion_def)

lemma onlyVersion_hd:
  "onlyVersion c v \<Longrightarrow> VersionIDs c \<noteq> [] \<Longrightarrow> hd (VersionIDs c) = v"
  by (cases "VersionIDs c") (auto simp: onlyVersion_def)

lemma Return_True_shaped:
  assumes "shaped cs (Return m True)"
  obtains r where "m = Some r"
  using assms by (auto simp: shaped_def)

text \<open>An input whose only candidate is \<open>v\<close> is resolved to \<open>v\<close>.\<close>

lemma Reduce_onlyVersion_loops:
  shows "n < length cs \<longrightarrow> distinct (map Input cs) \<longrightarrow> onlyVersion (cs ! n) v \<longrightarrow>
           Reduce depth jobs cs = Return (Some r) True \<longrightarrow> r (Input (cs ! n)) = Some v"
    and "n < length new \<longrightarrow> distinct (map Input new) \<longrightarrow> onlyVersion (new ! n) v \<longrightarrow>
           rangeLoop depth jobs new i = Return (Some r) True \<longrightarrow>
           r (Input (new ! n)) = Some v"
    and "i < length new \<longrightarrow> n < length new \<longrightarrow> distinct (map Input new) \<longrightarrow>
           onlyVersion (new ! n) v \<longrightarrow>
           versionsLoop depth jobs new i (new ! i) it = Return (Some r) True \<longrightarrow>
           r (Input (new ! n)) = Some v"
proof (induction depth jobs cs and depth jobs new i and depth jobs new i it
       rule: Reduce_loops_induct)
  case (reduce depth jobs cs)
  let ?new = "pruneToCommonBuilds cs jobs"
  show ?case
  proof (intro impI)
    assume n: "n < length cs" and d: "distinct (map Input cs)"
      and o: "onlyVersion (cs ! n) v"
      and r: "Reduce depth jobs cs = Return (Some r) True"
    have nw: "narrowed (?new ! n) (cs ! n)"
      using narrows_prune n by (rule narrows_nth)
    have "r (Input (?new ! n)) = Some v"
      using reduce n d r onlyVersion_narrowed [OF nw o]
      by (simp add: Reduce.simps)
    then show "r (Input (cs ! n)) = Some v"
      by (simp add: narrowed_fields(1) [OF nw])
  qed
next
  case (past_end depth jobs new i)
  show ?case
  proof (intro impI)
    assume n: "n < length new" and d: "distinct (map Input new)"
      and o: "onlyVersion (new ! n) v"
      and r: "rangeLoop depth jobs new i = Return (Some r) True"
    have "resolveLoop new Map.empty = Return (Some r) True"
      using r past_end by (simp add: rangeLoop_done)
    from resolveLoop_lookup [OF this d] n
    have "r (Input (new ! n)) = Some (hd (VersionIDs (new ! n)))"
      and "VersionIDs (new ! n) \<noteq> []"
      by simp_all
    then show "r (Input (new ! n)) = Some v"
      using o by (simp add: onlyVersion_hd)
  qed
next
  case (skip depth jobs new i)
  then show ?case by (simp add: rangeLoop_skip)
next
  case (pin depth jobs new i)
  let ?p = "pinned new i (PinnedVersionID (new ! i))"
  show ?case
  proof (intro impI)
    assume n: "n < length new" and d: "distinct (map Input new)"
      and o: "onlyVersion (new ! n) v"
      and r: "rangeLoop depth jobs new i = Return (Some r) True"
    have nw: "narrowed (?p ! n) (new ! n)"
      using narrows_pinned n by (rule narrows_nth)
    have "r (Input (?p ! n)) = Some v"
      using pin n d r onlyVersion_narrowed [OF nw o]
      by (simp add: rangeLoop_pin)
    then show "r (Input (new ! n)) = Some v"
      by (simp add: narrowed_fields(1) [OF nw])
  qed
next
  case (branch depth jobs new i)
  then show ?case by (simp add: rangeLoop_branch)
next
  case (out_of_range depth jobs new i it)
  then show ?case by simp
next
  case (exhausted depth jobs new i)
  then show ?case by (simp add: versionsLoop_Nil)
next
  case (attempt depth jobs new i w it)
  let ?p = "pinned new i w"
  show ?case
  proof (intro impI)
    assume i: "i < length new" and n: "n < length new" and d: "distinct (map Input new)"
      and o: "onlyVersion (new ! n) v"
      and r: "versionsLoop depth jobs new i (new ! i) (w # it) = Return (Some r) True"
    have nw: "narrowed (?p ! n) (new ! n)"
      using narrows_pinned n by (rule narrows_nth)
    show "r (Input (new ! n)) = Some v"
    proof (cases "Reduce (Suc depth) jobs ?p")
      case Panic
      with r i show ?thesis by (simp add: versionsLoop_Cons)
    next
      case (Return m ok)
      show ?thesis
      proof (cases "ok \<and> IsNext (new ! i) w it")
        case True
        with r i Return have "Reduce (Suc depth) jobs ?p = Return (Some r) True"
          by (simp add: versionsLoop_Cons)
        with attempt(2) n d onlyVersion_narrowed [OF nw o]
        have "r (Input (?p ! n)) = Some v"
          by simp
        then show ?thesis
          by (simp add: narrowed_fields(1) [OF nw])
      next
        case False
        with r i Return
        have "versionsLoop depth jobs new i (new ! i) it = Return (Some r) True"
          by (simp add: versionsLoop_Cons)
        with attempt(3) [OF Return False] i n d o show ?thesis
          by simp
      qed
    qed
  qed
qed


definition pinStep :: "InputVersionCandidates \<Rightarrow> InputVersionCandidates" where
  "pinStep c =
     (if Len c \<noteq> 1 \<and> PinnedVersionID c \<noteq> 0
      then c\<lparr>VersionCandidates := ForVersion c (PinnedVersionID c)\<rparr> else c)"

definition passable :: "InputVersionCandidates \<Rightarrow> bool" where
  "passable c \<longleftrightarrow> Len c = 1 \<or> PinnedVersionID c \<noteq> 0"

definition leafState :: "JobSet \<Rightarrow> InputCandidates \<Rightarrow> bool" where
  "leafState jobs new \<longleftrightarrow>
     (\<exists>base. (\<forall>c \<in> set (pruneToCommonBuilds base jobs). passable c) \<and>
             new = map pinStep (pruneToCommonBuilds base jobs))"

definition scanning :: "InputCandidates \<Rightarrow> nat \<Rightarrow> InputCandidates \<Rightarrow> bool" where
  "scanning pruned k new \<longleftrightarrow>
     length new = length pruned \<and>
     (\<forall>m < length pruned. new ! m = (if m < k then pinStep (pruned ! m) else pruned ! m)) \<and>
     (\<forall>m < length pruned. m < k \<longrightarrow> passable (pruned ! m))"

lemma scanning_start: "scanning pruned 0 pruned"
  by (simp add: scanning_def)

lemma scanning_skip:
  assumes "scanning pruned k new" and "k < length new" and "Len (new ! k) = 1"
  shows "scanning pruned (Suc k) new"
proof -
  have k: "k < length pruned" and nk: "new ! k = pruned ! k"
    using assms(1,2) by (simp_all add: scanning_def)
  have "pinStep (pruned ! k) = pruned ! k" and "passable (pruned ! k)"
    using assms(3) nk by (simp_all add: pinStep_def passable_def)
  then show ?thesis
    using assms(1) nk unfolding scanning_def
    by (auto simp: less_Suc_eq)
qed

lemma scanning_pin:
  assumes "scanning pruned k new" and "k < length new" and "Len (new ! k) \<noteq> 1"
    and "PinnedVersionID (new ! k) \<noteq> 0"
  shows "scanning pruned (Suc k) (pinned new k (PinnedVersionID (new ! k)))"
proof -
  have k: "k < length pruned" and nk: "new ! k = pruned ! k"
    using assms(1,2) by (simp_all add: scanning_def)
  have ps: "pinStep (pruned ! k) = pinned new k (PinnedVersionID (new ! k)) ! k"
    using assms(2-4) nk by (simp add: pinStep_def pinned_nth_same)
  have pa: "passable (pruned ! k)"
    using assms(4) nk by (simp add: passable_def)
  show ?thesis
    unfolding scanning_def
  proof (intro conjI allI impI)
    show "length (pinned new k (PinnedVersionID (new ! k))) = length pruned"
      using assms(1) by (simp add: scanning_def)
  next
    fix m assume m: "m < length pruned"
    show "pinned new k (PinnedVersionID (new ! k)) ! m =
            (if m < Suc k then pinStep (pruned ! m) else pruned ! m)"
    proof (cases "m = k")
      case True
      then show ?thesis using ps by simp
    next
      case False
      then show ?thesis
        using assms(1) m by (auto simp: pinned_nth_other scanning_def less_Suc_eq)
    qed
  next
    fix m assume "m < length pruned" and "m < Suc k"
    then show "passable (pruned ! m)"
      using assms(1) pa by (auto simp: scanning_def less_Suc_eq)
  qed
qed

lemma scanning_end:
  assumes "scanning (pruneToCommonBuilds base jobs) k new" and "\<not> k < length new"
  shows "leafState jobs new"
proof -
  let ?P = "pruneToCommonBuilds base jobs"
  have len: "length new = length ?P"
    using assms(1) by (simp add: scanning_def)
  have "new = map pinStep ?P"
  proof (rule nth_equalityI)
    show "length new = length (map pinStep ?P)" using len by simp
  next
    fix m assume "m < length new"
    then show "new ! m = map pinStep ?P ! m"
      using assms len by (simp add: scanning_def)
  qed
  moreover have "\<forall>c \<in> set ?P. passable c"
  proof
    fix c assume "c \<in> set ?P"
    then obtain m where "m < length ?P" and "?P ! m = c"
      by (auto simp: in_set_conv_nth)
    then show "passable c"
      using assms len by (auto simp: scanning_def)
  qed
  ultimately show ?thesis
    unfolding leafState_def by blast
qed

text \<open>
  A property of a successful result that holds at the state the final loop reads, and
  that survives widening the candidate sets, holds of the call's argument.
\<close>

lemma Reduce_success_loops:
  assumes up: "\<And>cs' cs. narrows cs' cs \<Longrightarrow> \<Phi> cs' \<Longrightarrow> \<Phi> cs"
    and leaf: "\<And>new. leafState jobs new \<Longrightarrow>
                 resolveLoop new Map.empty = Return (Some r) True \<Longrightarrow> \<Phi> new"
  shows "js = jobs \<longrightarrow> Reduce depth js cs = Return (Some r) True \<longrightarrow> \<Phi> cs"
    and "js = jobs \<longrightarrow> (\<exists>base. scanning (pruneToCommonBuilds base jobs) i new) \<longrightarrow>
           rangeLoop depth js new i = Return (Some r) True \<longrightarrow> \<Phi> new"
    and "js = jobs \<longrightarrow> i < length new \<longrightarrow>
           versionsLoop depth js new i (new ! i) it = Return (Some r) True \<longrightarrow> \<Phi> new"
proof (induction depth js cs and depth js new i and depth js new i it
       rule: Reduce_loops_induct)
  case (reduce depth js cs)
  show ?case
  proof (intro impI)
    assume j: "js = jobs" and r: "Reduce depth js cs = Return (Some r) True"
    have "\<exists>base. scanning (pruneToCommonBuilds base jobs) 0 (pruneToCommonBuilds cs js)"
      using j scanning_start by blast
    with reduce j r have "\<Phi> (pruneToCommonBuilds cs js)"
      by (simp add: Reduce.simps)
    with narrows_prune show "\<Phi> cs" by (rule up)
  qed
next
  case (past_end depth js new i)
  show ?case
  proof (intro impI)
    assume j: "js = jobs"
      and s: "\<exists>base. scanning (pruneToCommonBuilds base jobs) i new"
      and r: "rangeLoop depth js new i = Return (Some r) True"
    from s obtain base where "scanning (pruneToCommonBuilds base jobs) i new" ..
    from this past_end have "leafState jobs new"
      by (rule scanning_end)
    moreover have "resolveLoop new Map.empty = Return (Some r) True"
      using r past_end by (simp add: rangeLoop_done)
    ultimately show "\<Phi> new" by (rule leaf)
  qed
next
  case (skip depth js new i)
  show ?case
  proof (intro impI)
    assume j: "js = jobs"
      and s: "\<exists>base. scanning (pruneToCommonBuilds base jobs) i new"
      and r: "rangeLoop depth js new i = Return (Some r) True"
    from s obtain base where "scanning (pruneToCommonBuilds base jobs) i new" ..
    from scanning_skip [OF this skip(1,2)]
    have "\<exists>base. scanning (pruneToCommonBuilds base jobs) (Suc i) new" ..
    with skip j r show "\<Phi> new"
      by (simp add: rangeLoop_skip)
  qed
next
  case (pin depth js new i)
  let ?p = "pinned new i (PinnedVersionID (new ! i))"
  show ?case
  proof (intro impI)
    assume j: "js = jobs"
      and s: "\<exists>base. scanning (pruneToCommonBuilds base jobs) i new"
      and r: "rangeLoop depth js new i = Return (Some r) True"
    from s obtain base where "scanning (pruneToCommonBuilds base jobs) i new" ..
    from scanning_pin [OF this pin(1-3)]
    have "\<exists>base. scanning (pruneToCommonBuilds base jobs) (Suc i) ?p" ..
    with pin j r have "\<Phi> ?p"
      by (simp add: rangeLoop_pin)
    with narrows_pinned show "\<Phi> new" by (rule up)
  qed
next
  case (branch depth js new i)
  then show ?case by (simp add: rangeLoop_branch)
next
  case (out_of_range depth js new i it)
  then show ?case by simp
next
  case (exhausted depth js new i)
  then show ?case by (simp add: versionsLoop_Nil)
next
  case (attempt depth js new i w it)
  let ?p = "pinned new i w"
  show ?case
  proof (intro impI)
    assume j: "js = jobs" and i: "i < length new"
      and r: "versionsLoop depth js new i (new ! i) (w # it) = Return (Some r) True"
    show "\<Phi> new"
    proof (cases "Reduce (Suc depth) js ?p")
      case Panic
      with r i show ?thesis by (simp add: versionsLoop_Cons)
    next
      case (Return m ok)
      show ?thesis
      proof (cases "ok \<and> IsNext (new ! i) w it")
        case True
        with r i Return have "Reduce (Suc depth) js ?p = Return (Some r) True"
          by (simp add: versionsLoop_Cons)
        with attempt(2) j have "\<Phi> ?p" by simp
        with narrows_pinned show ?thesis by (rule up)
      next
        case False
        with r i Return
        have "versionsLoop depth js new i (new ! i) it = Return (Some r) True"
          by (simp add: versionsLoop_Cons)
        with attempt(3) [OF Return False] i j show ?thesis
          by simp
      qed
    qed
  qed
qed

text \<open>Every successful result maps each input to one of its candidates.\<close>

lemma Reduce_candidate:
  assumes "Reduce depth jobs cs = Return (Some r) True"
    and "n < length cs" and "distinct (map Input cs)"
  shows "\<exists>v \<in> set (VersionIDs (cs ! n)). r (Input (cs ! n)) = Some v"
proof -
  let ?\<Phi> = "\<lambda>cs. n < length cs \<longrightarrow> distinct (map Input cs) \<longrightarrow>
      (\<exists>v \<in> set (VersionIDs (cs ! n)). r (Input (cs ! n)) = Some v)"
  have up: "?\<Phi> cs" if nw: "narrows cs' cs" and p: "?\<Phi> cs'" for cs' cs
  proof (intro impI)
    assume n: "n < length cs" and d: "distinct (map Input cs)"
    have nn: "narrowed (cs' ! n) (cs ! n)"
      using nw n by (rule narrows_nth)
    have "\<exists>v \<in> set (VersionIDs (cs' ! n)). r (Input (cs' ! n)) = Some v"
      using p n d narrows_length [OF nw] narrows_names [OF nw] by simp
    then show "\<exists>v \<in> set (VersionIDs (cs ! n)). r (Input (cs ! n)) = Some v"
      using narrowed_ids [OF nn] narrowed_fields(1) [OF nn] by auto
  qed
  have leaf: "?\<Phi> new" if "resolveLoop new Map.empty = Return (Some r) True" for new
  proof (intro impI)
    assume n: "n < length new" and d: "distinct (map Input new)"
    from resolveLoop_lookup [OF that d] n
    have "r (Input (new ! n)) = Some (hd (VersionIDs (new ! n)))"
      and "VersionIDs (new ! n) \<noteq> []"
      by simp_all
    then show "\<exists>v \<in> set (VersionIDs (new ! n)). r (Input (new ! n)) = Some v"
      by simp
  qed
  have "jobs = jobs \<longrightarrow> Reduce depth jobs cs = Return (Some r) True \<longrightarrow> ?\<Phi> cs"
  proof (rule Reduce_success_loops(1))
    fix cs' cs :: InputCandidates
    assume "narrows cs' cs" and "?\<Phi> cs'"
    then show "?\<Phi> cs" by (rule up)
  next
    fix new
    assume "resolveLoop new Map.empty = Return (Some r) True"
    then show "?\<Phi> new" by (rule leaf)
  qed
  with assms show ?thesis by simp
qed

definition unconstrained :: "InputVersionCandidates \<Rightarrow> JobSet \<Rightarrow> bool" where
  "unconstrained c jobs \<longleftrightarrow>
     (\<forall>v \<in> set (VersionCandidates c). \<forall>j \<in> set jobs. versionBuildIDs v j = {})"

lemma prune_loop_unconstrained:
  "n < length cs \<Longrightarrow> unconstrained (cs ! n) jobs \<Longrightarrow>
   pruneToCommonBuilds_loop cs jobs ! n = cs ! n"
proof (induction jobs arbitrary: cs)
  case Nil
  show ?case by simp
next
  case (Cons j jobs)
  let ?f = "\<lambda>c. c\<lparr>VersionCandidates :=
                PruneVersionsOfOtherBuildIDs c j (commonBuildIDs cs j)\<rparr>"
  have "filter (\<lambda>v. versionBuildIDs v j = {} \<or> versionBuildIDs v j \<inter> commonBuildIDs cs j \<noteq> {})
          (VersionCandidates (cs ! n)) = VersionCandidates (cs ! n)"
    using Cons.prems(2) by (simp add: unconstrained_def)
  then have same: "?f (cs ! n) = cs ! n"
    by (simp add: PruneVersionsOfOtherBuildIDs_def vcPruneVersionsOfOtherBuildIDs_def)
  then have "map ?f cs ! n = cs ! n"
    using Cons.prems(1) by simp
  moreover have "unconstrained (cs ! n) jobs"
    using Cons.prems(2) by (simp add: unconstrained_def)
  ultimately have "pruneToCommonBuilds_loop (map ?f cs) jobs ! n = cs ! n"
    using Cons.IH [of "map ?f cs"] Cons.prems(1) by simp
  then show ?case by (simp add: Let_def)
qed

lemma prune_unconstrained:
  "n < length cs \<Longrightarrow> unconstrained (cs ! n) jobs \<Longrightarrow> pruneToCommonBuilds cs jobs ! n = cs ! n"
  by (simp add: pruneToCommonBuilds_def prune_loop_unconstrained)

definition pinHeld :: "InputVersionCandidates \<Rightarrow> bool" where
  "pinHeld c \<longleftrightarrow> Len c \<noteq> 1 \<or> onlyVersion c (PinnedVersionID c)"

lemma PinnedVersionID_pinned [simp]:
  "n < length cs \<Longrightarrow> PinnedVersionID (pinned cs i v ! n) = PinnedVersionID (cs ! n)"
  using narrowed_fields(2) [OF narrows_nth [OF narrows_pinned]] by simp

lemma Reduce_pin_unconstrained_loops:
  shows "n < length cs \<longrightarrow> distinct (map Input cs) \<longrightarrow> PinnedVersionID (cs ! n) \<noteq> 0 \<longrightarrow>
           unconstrained (cs ! n) jobs \<longrightarrow> pinHeld (cs ! n) \<longrightarrow>
           Reduce depth jobs cs = Return (Some r) True \<longrightarrow>
           r (Input (cs ! n)) = Some (PinnedVersionID (cs ! n))"
    and "n < length new \<longrightarrow> i \<le> n \<longrightarrow> distinct (map Input new) \<longrightarrow>
           PinnedVersionID (new ! n) \<noteq> 0 \<longrightarrow>
           unconstrained (new ! n) jobs \<longrightarrow> pinHeld (new ! n) \<longrightarrow>
           rangeLoop depth jobs new i = Return (Some r) True \<longrightarrow>
           r (Input (new ! n)) = Some (PinnedVersionID (new ! n))"
    and "i < length new \<longrightarrow> n < length new \<longrightarrow> n \<noteq> i \<longrightarrow> distinct (map Input new) \<longrightarrow>
           PinnedVersionID (new ! n) \<noteq> 0 \<longrightarrow>
           unconstrained (new ! n) jobs \<longrightarrow> pinHeld (new ! n) \<longrightarrow>
           versionsLoop depth jobs new i (new ! i) it = Return (Some r) True \<longrightarrow>
           r (Input (new ! n)) = Some (PinnedVersionID (new ! n))"
proof (induction depth jobs cs and depth jobs new i and depth jobs new i it
       rule: Reduce_loops_induct)
  case (reduce depth jobs cs)
  show ?case
  proof (intro impI)
    assume n: "n < length cs" and u: "unconstrained (cs ! n) jobs"
      and rest: "distinct (map Input cs)" "PinnedVersionID (cs ! n) \<noteq> 0" "pinHeld (cs ! n)"
        "Reduce depth jobs cs = Return (Some r) True"
    have "pruneToCommonBuilds cs jobs ! n = cs ! n"
      using n u by (rule prune_unconstrained)
    with reduce n u rest show "r (Input (cs ! n)) = Some (PinnedVersionID (cs ! n))"
      by (simp add: Reduce.simps)
  qed
next
  case (past_end depth jobs new i)
  then show ?case by simp
next
  case (skip depth jobs new i)
  show ?case
  proof (intro impI)
    assume n: "n < length new" and le: "i \<le> n" and d: "distinct (map Input new)"
      and p: "PinnedVersionID (new ! n) \<noteq> 0" and u: "unconstrained (new ! n) jobs"
      and h: "pinHeld (new ! n)"
      and r: "rangeLoop depth jobs new i = Return (Some r) True"
    have r': "rangeLoop depth jobs new (Suc i) = Return (Some r) True"
      using r skip(1,2) by (simp add: rangeLoop_skip)
    show "r (Input (new ! n)) = Some (PinnedVersionID (new ! n))"
    proof (cases "n = i")
      case True
      with h skip(2) have "onlyVersion (new ! n) (PinnedVersionID (new ! n))"
        by (simp add: pinHeld_def)
      with Reduce_onlyVersion_loops(2) n d r' show ?thesis
        by blast
    next
      case False
      with le have "Suc i \<le> n" by simp
      with skip(3) n d p u h r' show ?thesis by simp
    qed
  qed
next
  case (pin depth jobs new i)
  let ?p = "pinned new i (PinnedVersionID (new ! i))"
  show ?case
  proof (intro impI)
    assume n: "n < length new" and le: "i \<le> n" and d: "distinct (map Input new)"
      and p: "PinnedVersionID (new ! n) \<noteq> 0" and u: "unconstrained (new ! n) jobs"
      and h: "pinHeld (new ! n)"
      and r: "rangeLoop depth jobs new i = Return (Some r) True"
    have r': "rangeLoop depth jobs ?p (Suc i) = Return (Some r) True"
      using r pin(1-3) by (simp add: rangeLoop_pin)
    have nw: "narrowed (?p ! n) (new ! n)"
      using narrows_pinned n by (rule narrows_nth)
    have "r (Input (?p ! n)) = Some (PinnedVersionID (new ! n))"
    proof (cases "n = i")
      case True
      then have "onlyVersion (?p ! n) (PinnedVersionID (new ! n))"
        using n by (simp add: onlyVersion_pinned)
      with Reduce_onlyVersion_loops(2) [of n ?p] n d r' show ?thesis
        by simp
    next
      case False
      with le have "Suc i \<le> n" by simp
      moreover have "?p ! n = new ! n"
        using False by (simp add: pinned_nth_other)
      ultimately show ?thesis
        using pin(4) n d p u h r' by simp
    qed
    then show "r (Input (new ! n)) = Some (PinnedVersionID (new ! n))"
      by (simp add: narrowed_fields(1) [OF nw])
  qed
next
  case (branch depth jobs new i)
  show ?case
  proof (intro impI)
    assume n: "n < length new" and le: "i \<le> n" and d: "distinct (map Input new)"
      and p: "PinnedVersionID (new ! n) \<noteq> 0" and u: "unconstrained (new ! n) jobs"
      and h: "pinHeld (new ! n)"
      and r: "rangeLoop depth jobs new i = Return (Some r) True"
    have "n \<noteq> i"
      using p branch(3) by auto
    moreover have "versionsLoop depth jobs new i (new ! i) (VersionIDs (new ! i)) =
        Return (Some r) True"
      using r branch(1-3) by (simp add: rangeLoop_branch)
    ultimately show "r (Input (new ! n)) = Some (PinnedVersionID (new ! n))"
      using branch(1,4) n d p u h by simp
  qed
next
  case (out_of_range depth jobs new i it)
  then show ?case by simp
next
  case (exhausted depth jobs new i)
  then show ?case by (simp add: versionsLoop_Nil)
next
  case (attempt depth jobs new i w it)
  let ?p = "pinned new i w"
  show ?case
  proof (intro impI)
    assume i: "i < length new" and n: "n < length new" and ne: "n \<noteq> i"
      and d: "distinct (map Input new)"
      and p: "PinnedVersionID (new ! n) \<noteq> 0" and u: "unconstrained (new ! n) jobs"
      and h: "pinHeld (new ! n)"
      and r: "versionsLoop depth jobs new i (new ! i) (w # it) = Return (Some r) True"
    have same: "?p ! n = new ! n"
      using ne by (simp add: pinned_nth_other)
    show "r (Input (new ! n)) = Some (PinnedVersionID (new ! n))"
    proof (cases "Reduce (Suc depth) jobs ?p")
      case Panic
      with r i show ?thesis by (simp add: versionsLoop_Cons)
    next
      case (Return m ok)
      show ?thesis
      proof (cases "ok \<and> IsNext (new ! i) w it")
        case True
        with r i Return have "Reduce (Suc depth) jobs ?p = Return (Some r) True"
          by (simp add: versionsLoop_Cons)
        with attempt(2) n d p u h same show ?thesis
          by simp
      next
        case False
        with r i Return
        have "versionsLoop depth jobs new i (new ! i) it = Return (Some r) True"
          by (simp add: versionsLoop_Cons)
        with attempt(3) [OF Return False] i n ne d p u h show ?thesis
          by simp
      qed
    qed
  qed
qed


lemma Return_cases:
  obtains "Reduce depth jobs cs = Return None False"
  | r where "Reduce depth jobs cs = Return (Some r) True"
  using Reduce_shaped_loops(1) [of cs depth jobs] by (auto simp: shaped_def)

lemma rangeLoop_pin_present:
  assumes "i < length new" and "distinct (map Input new)" and "Len (new ! i) \<noteq> 1"
    and "PinnedVersionID (new ! i) \<noteq> 0"
    and "rangeLoop depth jobs new i = Return (Some r) True"
  shows "r (Input (new ! i)) = Some (PinnedVersionID (new ! i))"
proof -
  let ?p = "pinned new i (PinnedVersionID (new ! i))"
  have "rangeLoop depth jobs ?p (Suc i) = Return (Some r) True"
    using assms by (simp add: rangeLoop_pin)
  moreover have "onlyVersion (?p ! i) (PinnedVersionID (new ! i))"
    using assms(1) by (rule onlyVersion_pinned)
  ultimately have "r (Input (?p ! i)) = Some (PinnedVersionID (new ! i))"
    using Reduce_onlyVersion_loops(2) [of i ?p] assms(1,2) by simp
  moreover have "narrowed (?p ! i) (new ! i)"
    using narrows_pinned assms(1) by (rule narrows_nth)
  ultimately show ?thesis
    by (simp add: narrowed_fields(1))
qed

lemma Reduce_pin_unconstrained:
  assumes "n < length cs" and "distinct (map Input cs)" and "Len (cs ! n) \<noteq> 1"
    and "PinnedVersionID (cs ! n) \<noteq> 0" and "unconstrained (cs ! n) jobs"
  shows "Reduce depth jobs cs = Return (Some r) True \<Longrightarrow>
           r (Input (cs ! n)) = Some (PinnedVersionID (cs ! n)) \<and>
           PinnedVersionID (cs ! n) \<in> set (VersionIDs (cs ! n))"
    and "PinnedVersionID (cs ! n) \<notin> set (VersionIDs (cs ! n)) \<Longrightarrow>
           Reduce depth jobs cs = Return None False"
proof -
  have h: "pinHeld (cs ! n)"
    using assms(3) by (simp add: pinHeld_def)
  have succ: "r (Input (cs ! n)) = Some (PinnedVersionID (cs ! n)) \<and>
           PinnedVersionID (cs ! n) \<in> set (VersionIDs (cs ! n))"
    if r: "Reduce depth jobs cs = Return (Some r) True" for r
  proof -
    have "r (Input (cs ! n)) = Some (PinnedVersionID (cs ! n))"
      using Reduce_pin_unconstrained_loops(1) [of n cs jobs depth r] assms h r by simp
    moreover obtain v where "v \<in> set (VersionIDs (cs ! n))" and "r (Input (cs ! n)) = Some v"
      using Reduce_candidate [OF r assms(1,2)] by blast
    ultimately show ?thesis by simp
  qed
  show "Reduce depth jobs cs = Return (Some r) True \<Longrightarrow>
           r (Input (cs ! n)) = Some (PinnedVersionID (cs ! n)) \<and>
           PinnedVersionID (cs ! n) \<in> set (VersionIDs (cs ! n))"
    by (rule succ)
  show "Reduce depth jobs cs = Return None False"
    if "PinnedVersionID (cs ! n) \<notin> set (VersionIDs (cs ! n))"
    using that succ by (cases rule: Return_cases [of depth jobs cs]) auto
qed

lemma Reduce_single_candidate:
  assumes "n < length cs" and "distinct (map Input cs)" and "Len (cs ! n) = 1"
    and "Reduce depth jobs cs = Return (Some r) True"
  shows "r (Input (cs ! n)) = Some (hd (VersionIDs (cs ! n)))"
proof -
  have "onlyVersion (cs ! n) (hd (VersionIDs (cs ! n)))"
    using assms(3)
    by (cases "VersionCandidates (cs ! n)")
       (simp_all add: onlyVersion_def VersionIDs_def vcVersionIDs_def Len_def vcLen_def)
  then show ?thesis
    using Reduce_onlyVersion_loops(1) [of n cs] assms by simp
qed

section \<open>Example inputs\<close>

text \<open>Constructors for the concrete inputs at which the theorems below are exercised.\<close>

definition version :: "int \<Rightarrow> (int \<times> int) list \<Rightarrow> Version" where
  "version v builds = \<lparr>vid = v, usedBy = builds\<rparr>"

definition neverBuilt :: ExistingBuildResolver where
  "neverBuilt = \<lparr>ExistsForVersion = (\<lambda>v. False), ExistsForResource = False\<rparr>"

definition input ::
    "string \<Rightarrow> int set \<Rightarrow> int \<Rightarrow> VersionCandidates \<Rightarrow> InputVersionCandidates" where
  "input name passedJobs pin versions =
     \<lparr>Input = name, Passed = passedJobs, UseEveryVersion = False, PinnedVersionID = pin,
      ExistingBuildResolver = neverBuilt, VersionCandidates = versions,
      hasUsedResource = None\<rparr>"

section \<open>Reading results off concrete calls\<close>

lemma successD:
  "(case out of Return (Some r) True \<Rightarrow> P r | _ \<Rightarrow> False) \<Longrightarrow>
   \<exists>r. out = Return (Some r) True \<and> P r"
  by (auto split: outcome.splits option.splits bool.splits)

lemma failureD:
  "(case out of Return None False \<Rightarrow> True | _ \<Rightarrow> False) \<Longrightarrow> out = Return None False"
  by (auto split: outcome.splits option.splits bool.splits)

section \<open>The shape of the result\<close>




section \<open>Pinning\<close>

text \<open>
  C3, as stated, fails in both halves, because the range loop tests for exactly one
  candidate (line 73) before it tests for a pin (line 78). An input pinned to the absent
  version 7 whose only candidate is 5 is resolved to 5. An input pinned to version 1,
  which is among its candidates 1 and 2, is resolved to 2 when pruning against the build
  of job 7 that input \<open>b\<close> carries has left it with the one candidate 2.
\<close>

theorem Reduce_pin_counterexample:
  "(\<exists>r. Reduce 0 [] [input ''a'' {} 7 [version 5 []]] = Return (Some r) True \<and>
        r ''a'' = Some 5) \<and>
   (\<exists>r. Reduce 0 [7]
          [input ''a'' {7} 1 [version 1 [(7, 101)], version 2 [(7, 100)]],
           input ''b'' {7} 0 [version 20 [(7, 100)]]] = Return (Some r) True \<and>
        r ''a'' = Some 2 \<and> r ''b'' = Some 20)"
proof
  have "(case Reduce 0 [] [input ''a'' {} 7 [version 5 []]] of
        Return (Some r) True \<Rightarrow> r ''a'' = Some 5 | _ \<Rightarrow> False)"
    by code_simp
  then show "\<exists>r. Reduce 0 [] [input ''a'' {} 7 [version 5 []]] = Return (Some r) True \<and>
        r ''a'' = Some 5"
    by (rule successD)
next
  have "(case Reduce 0 [7]
          [input ''a'' {7} 1 [version 1 [(7, 101)], version 2 [(7, 100)]],
           input ''b'' {7} 0 [version 20 [(7, 100)]]] of
        Return (Some r) True \<Rightarrow> r ''a'' = Some 2 \<and> r ''b'' = Some 20 | _ \<Rightarrow> False)"
    by code_simp
  then show "\<exists>r. Reduce 0 [7]
          [input ''a'' {7} 1 [version 1 [(7, 101)], version 2 [(7, 100)]],
           input ''b'' {7} 0 [version 20 [(7, 100)]]] = Return (Some r) True \<and>
        r ''a'' = Some 2 \<and> r ''b'' = Some 20"
    by (rule successD)
qed

text \<open>
  C3, amended. Input names are distinct. An input with exactly one candidate is resolved
  to that candidate, whatever its pin. A nonzero pin is applied when the range loop
  reaches the input with a number of candidates other than one; from there every
  successful result maps the input to the pinned version, which is then among the
  candidates, and an absent pinned version makes the call fail with the nil mapping, the
  restriction having emptied the input. For an input that carries no recorded build of
  any job in \<open>jobs\<close>, so that pruning cannot shrink it, and that enters the call with a
  number of candidates other than one, both hold of \<^verbatim>\<open>Reduce\<close> itself, regardless of
  the other inputs.
\<close>

theorem Reduce_pin_applied:
  "(n < length cs \<and> distinct (map Input cs) \<and> Len (cs ! n) = 1 \<longrightarrow>
      (\<forall>r. Reduce depth jobs cs = Return (Some r) True \<longrightarrow>
           r (Input (cs ! n)) = Some (hd (VersionIDs (cs ! n))))) \<and>
   (i < length new \<and> distinct (map Input new) \<and> Len (new ! i) \<noteq> 1 \<and>
    PinnedVersionID (new ! i) \<noteq> 0 \<longrightarrow>
      (\<forall>r. rangeLoop depth jobs new i = Return (Some r) True \<longrightarrow>
           r (Input (new ! i)) = Some (PinnedVersionID (new ! i)) \<and>
           PinnedVersionID (new ! i) \<in> set (VersionIDs (new ! i))) \<and>
      (PinnedVersionID (new ! i) \<notin> set (VersionIDs (new ! i)) \<longrightarrow>
         rangeLoop depth jobs new i = Return None False)) \<and>
   (n < length cs \<and> distinct (map Input cs) \<and> Len (cs ! n) \<noteq> 1 \<and>
    PinnedVersionID (cs ! n) \<noteq> 0 \<and> unconstrained (cs ! n) jobs \<longrightarrow>
      (\<forall>r. Reduce depth jobs cs = Return (Some r) True \<longrightarrow>
           r (Input (cs ! n)) = Some (PinnedVersionID (cs ! n)) \<and>
           PinnedVersionID (cs ! n) \<in> set (VersionIDs (cs ! n))) \<and>
      (PinnedVersionID (cs ! n) \<notin> set (VersionIDs (cs ! n)) \<longrightarrow>
         Reduce depth jobs cs = Return None False))"
proof (intro conjI impI allI)
  fix r
  assume "n < length cs \<and> distinct (map Input cs) \<and> Len (cs ! n) = 1"
    and "Reduce depth jobs cs = Return (Some r) True"
  then show "r (Input (cs ! n)) = Some (hd (VersionIDs (cs ! n)))"
    using Reduce_single_candidate [of n cs depth jobs r] by blast
next
  fix r
  assume a: "i < length new \<and> distinct (map Input new) \<and> Len (new ! i) \<noteq> 1 \<and>
      PinnedVersionID (new ! i) \<noteq> 0"
    and r: "rangeLoop depth jobs new i = Return (Some r) True"
  show "r (Input (new ! i)) = Some (PinnedVersionID (new ! i))"
    using rangeLoop_pin_present [of i new depth jobs r] a r by blast
  show "PinnedVersionID (new ! i) \<in> set (VersionIDs (new ! i))"
    using rangeLoop_pin_absent [of i new depth jobs] a r by auto
next
  assume "i < length new \<and> distinct (map Input new) \<and> Len (new ! i) \<noteq> 1 \<and>
      PinnedVersionID (new ! i) \<noteq> 0"
    and "PinnedVersionID (new ! i) \<notin> set (VersionIDs (new ! i))"
  then show "rangeLoop depth jobs new i = Return None False"
    by (simp add: rangeLoop_pin_absent)
next
  fix r
  assume a: "n < length cs \<and> distinct (map Input cs) \<and> Len (cs ! n) \<noteq> 1 \<and>
      PinnedVersionID (cs ! n) \<noteq> 0 \<and> unconstrained (cs ! n) jobs"
    and r: "Reduce depth jobs cs = Return (Some r) True"
  show "r (Input (cs ! n)) = Some (PinnedVersionID (cs ! n))"
    using Reduce_pin_unconstrained(1) [of n cs jobs depth r] a r by blast
  show "PinnedVersionID (cs ! n) \<in> set (VersionIDs (cs ! n))"
    using Reduce_pin_unconstrained(1) [of n cs jobs depth r] a r by blast
next
  assume "n < length cs \<and> distinct (map Input cs) \<and> Len (cs ! n) \<noteq> 1 \<and>
      PinnedVersionID (cs ! n) \<noteq> 0 \<and> unconstrained (cs ! n) jobs"
    and "PinnedVersionID (cs ! n) \<notin> set (VersionIDs (cs ! n))"
  then show "Reduce depth jobs cs = Return None False"
    using Reduce_pin_unconstrained(2) [of n cs jobs depth] by blast
qed

text \<open>
  C3, the amended statement at concrete inputs: input \<open>a\<close> with the candidates 7 and 8
  pinned to 7 beside an unpinned input \<open>b\<close>, the same input pinned to the absent
  version 9, and an input with the single candidate 5.
\<close>

theorem Reduce_pin_applied_witness:
  "(0 < length [input ''a'' {} 7 [version 7 [], version 8 []], input ''b'' {} 0 [version 3 []]] \<and>
    distinct (map Input
      [input ''a'' {} 7 [version 7 [], version 8 []], input ''b'' {} 0 [version 3 []]]) \<and>
    Len ([input ''a'' {} 7 [version 7 [], version 8 []], input ''b'' {} 0 [version 3 []]] ! 0)
      \<noteq> 1 \<and>
    PinnedVersionID
      ([input ''a'' {} 7 [version 7 [], version 8 []], input ''b'' {} 0 [version 3 []]] ! 0)
      \<noteq> 0 \<and>
    unconstrained
      ([input ''a'' {} 7 [version 7 [], version 8 []], input ''b'' {} 0 [version 3 []]] ! 0) []) \<and>
   (\<exists>r. Reduce 0 []
          [input ''a'' {} 7 [version 7 [], version 8 []], input ''b'' {} 0 [version 3 []]]
        = Return (Some r) True \<and> r ''a'' = Some 7) \<and>
   Reduce 0 [] [input ''a'' {} 9 [version 7 [], version 8 []]] = Return None False \<and>
   rangeLoop 0 [] [input ''a'' {} 9 [version 7 [], version 8 []]] 0 = Return None False \<and>
   (\<exists>r. Reduce 0 [] [input ''a'' {} 7 [version 5 []]] = Return (Some r) True \<and>
        r ''a'' = Some 5)"
proof -
  let ?ab = "[input ''a'' {} 7 [version 7 [], version 8 []], input ''b'' {} 0 [version 3 []]]"
  let ?a9 = "[input ''a'' {} 9 [version 7 [], version 8 []]]"
  let ?a5 = "[input ''a'' {} 7 [version 5 []]]"
  have "(case Reduce 0 [] ?ab of Return (Some r) True \<Rightarrow> True | _ \<Rightarrow> False)"
    by code_simp
  then have "\<exists>r. Reduce 0 [] ?ab = Return (Some r) True \<and> True"
    by (rule successD)
  then obtain r where r: "Reduce 0 [] ?ab = Return (Some r) True"
    by blast
  have hyp: "0 < length ?ab \<and> distinct (map Input ?ab) \<and> Len (?ab ! 0) \<noteq> 1 \<and>
      PinnedVersionID (?ab ! 0) \<noteq> 0 \<and> unconstrained (?ab ! 0) []"
    by (simp add: input_def version_def Len_def vcLen_def unconstrained_def)
  have "r (Input (?ab ! 0)) = Some (PinnedVersionID (?ab ! 0))"
    using Reduce_pin_applied [of 0 ?ab 0 "[]" 0 ?ab, THEN conjunct2, THEN conjunct2] hyp r
    by blast
  then have "r ''a'' = Some 7"
    by (simp add: input_def)
  with r have one: "\<exists>r. Reduce 0 [] ?ab = Return (Some r) True \<and> r ''a'' = Some 7"
    by blast
  have hyp9: "0 < length ?a9 \<and> distinct (map Input ?a9) \<and> Len (?a9 ! 0) \<noteq> 1 \<and>
      PinnedVersionID (?a9 ! 0) \<noteq> 0 \<and> unconstrained (?a9 ! 0) []"
    by (simp add: input_def version_def Len_def vcLen_def unconstrained_def)
  have absent: "PinnedVersionID (?a9 ! 0) \<notin> set (VersionIDs (?a9 ! 0))"
    by (simp add: input_def version_def VersionIDs_def vcVersionIDs_def)
  have two: "Reduce 0 [] ?a9 = Return None False"
    using Reduce_pin_applied [of 0 ?a9 0 "[]" 0 ?a9, THEN conjunct2, THEN conjunct2]
      hyp9 absent
    by blast
  have three: "rangeLoop 0 [] ?a9 0 = Return None False"
    using Reduce_pin_applied [of 0 ?a9 0 "[]" 0 ?a9, THEN conjunct2, THEN conjunct1]
      hyp9 absent
    by blast
  have hyp5: "0 < length ?a5 \<and> distinct (map Input ?a5) \<and> Len (?a5 ! 0) = 1"
    by (simp add: input_def version_def Len_def vcLen_def)
  have "(case Reduce 0 [] ?a5 of Return (Some r) True \<Rightarrow> True | _ \<Rightarrow> False)"
    by code_simp
  then have "\<exists>r. Reduce 0 [] ?a5 = Return (Some r) True \<and> True"
    by (rule successD)
  then obtain r5 where r5: "Reduce 0 [] ?a5 = Return (Some r5) True"
    by blast
  have "r5 (Input (?a5 ! 0)) = Some (hd (VersionIDs (?a5 ! 0)))"
    using Reduce_pin_applied [of 0 ?a5 0 "[]" 0 ?a5, THEN conjunct1] hyp5 r5
    by blast
  then have "r5 ''a'' = Some 5"
    by (simp add: input_def version_def VersionIDs_def vcVersionIDs_def)
  with r5 have four: "\<exists>r. Reduce 0 [] ?a5 = Return (Some r) True \<and> r ''a'' = Some 5"
    by blast
  from hyp one two three four show ?thesis
    by blast
qed

end
